theory Spec2Isabelle
  imports Main
begin

section \<open>The directory flusher of the importer (src/importer/flush-tree.js)\<close>

text \<open>
  The module turns a flat list of stored files into nested directory nodes, bottom up.
  The embedding follows the JavaScript function by function.

  \<^item> A content id is modelled by its base-encoded string (\<open>toBaseEncodedString()\<close>), the
    form under which the code keys the size index.
  \<^item> A JavaScript object used as a dictionary is an association list in the order of
    \<open>Object.keys\<close>: integer-like keys first, in ascending order, then the other keys in
    the order of their first assignment. A read \<open>obj[k]\<close> also finds what a plain object
    inherits from \<open>Object.prototype\<close>.
  \<^item> A value of the file tree is either a content id stored by line 72 or a nested
    dictionary created by line 69. The test \<open>isLeaf\<close> of line 164 looks at the kind of
    JavaScript value that a content id is; the first model of \<open>traverse\<close> below takes the
    stored content ids to be values that the test accepts, the second one applies the
    test.
  \<^item> The shared mutable objects (\<open>sizeIndex\<close>, the output \<open>source\<close>, the store behind
    \<open>ipld\<close>) are an explicit state. The state carries one chronological trace that
    records every assignment to the size index, every call of the persist step together
    with what it returned, and every value pushed to \<open>source\<close>.
  \<^item> Callbacks are results: \<open>callback(err)\<close> is \<open>Inl err\<close>, \<open>callback(null, cid)\<close> is
    \<open>Inr\<close>.
  \<^item> There are two models of \<open>traverse\<close>. In the first the persist step calls back at
    once, so that \<open>mapValues\<close> visits the keys in order and each child reports back
    before the next one is started. In the second the persist step calls back later:
    all children of a dictionary are started, the calls of the persist step are in
    flight together, and a schedule chooses which of them calls back next.
\<close>

subsection \<open>Data\<close>

type_synonym cid = string

record file_entry =
  path :: string
  fsize :: nat
  cid :: cid

datatype tree = Leaf cid | Dir "(string \<times> tree) list"

type_synonym file_tree = "(string \<times> tree) list"

text \<open>A link of a directory node: name, size as read from the size index
  (\<open>None\<close> is JavaScript's \<open>undefined\<close>), content id.\<close>
type_synonym link = "string \<times> nat option \<times> cid"

text \<open>What \<open>source.push\<close> receives: a directory record (lines 151-155) or the
  error value of line 146.\<close>
datatype sink_item = DirectoryRecord string nat cid | ErrorValue string

datatype error = MoreThanOneRoot | StoreError string

text \<open>The persist step (lines 135-136: \<open>DAGNode.create\<close> followed by \<open>persist\<close>) is
  external. It is a parameter: given the number of persist calls made before and the
  links, it fails with a message or returns the new content id and the node's size.\<close>
type_synonym store = "nat \<Rightarrow> link list \<Rightarrow> string + (cid \<times> nat)"

datatype event =
    IndexWrite cid nat
  | Persist "string option" "link list" "string + (cid \<times> nat)"
  | Push sink_item

record state =
  sizeIndex :: "cid \<rightharpoonup> nat"
  trace :: "event list"

subsection \<open>Reading the trace\<close>

fun is_persist :: "event \<Rightarrow> bool" where
  "is_persist (Persist p ls r) = True"
| "is_persist e = False"

definition persists :: "event list \<Rightarrow> event list" where
  "persists tr = filter is_persist tr"

fun is_push :: "event \<Rightarrow> bool" where
  "is_push (Push x) = True"
| "is_push e = False"

definition pushed :: "event list \<Rightarrow> event list" where
  "pushed tr = filter is_push tr"

fun is_write :: "event \<Rightarrow> bool" where
  "is_write (IndexWrite c n) = True"
| "is_write e = False"

definition writes :: "event list \<Rightarrow> event list" where
  "writes tr = filter is_write tr"

fun written_key :: "event \<Rightarrow> cid" where
  "written_key (IndexWrite c n) = c"
| "written_key e = []"

fun persist_path :: "event \<Rightarrow> string option" where
  "persist_path (Persist p ls r) = p"
| "persist_path e = None"

fun is_failure :: "event \<Rightarrow> bool" where
  "is_failure (Persist p ls (Inl m)) = True"
| "is_failure e = False"

fun is_error_push :: "event \<Rightarrow> bool" where
  "is_error_push (Push (ErrorValue m)) = True"
| "is_error_push e = False"

subsection \<open>The path splitter\<close>

text \<open>Modelled from the spec: the helper \<open>../utils/to-path-components\<close> is not among the
  sources. Section 4.1 makes the Path Splitter return the ordered components of a path
  without a leading empty component, section 6 says that components are separated by
  \<open>/\<close>. This is the split at every slash with the empty components dropped. The
  functions below take the splitter as a parameter, so that what is proved about them
  holds for any splitter.\<close>
fun split_slash :: "string \<Rightarrow> string list" where
  "split_slash [] = [[]]"
| "split_slash (c # cs) =
     (if c = CHR ''/'' then [] # split_slash cs
      else (case split_slash cs of
              [] \<Rightarrow> [[c]]
            | w # ws \<Rightarrow> (c # w) # ws))"

definition toPathComponents :: "string \<Rightarrow> string list" where
  "toPathComponents p = filter (\<lambda>w. w \<noteq> []) (split_slash p)"

subsection \<open>createTree (lines 54-80)\<close>

text \<open>The dictionaries of the code are plain objects created by \<open>{}\<close>. Two properties
  of plain objects matter. \<open>Object.keys\<close> lists the integer-like keys first, in
  ascending numeric order, and then the other keys in the order of their creation. A
  read \<open>obj[k]\<close> of a key that the object does not own goes on to \<open>Object.prototype\<close>,
  where the names below are found (functions, and for \<open>__proto__\<close> the prototype
  itself, all of them truthy).\<close>
definition index_val :: "string \<Rightarrow> nat" where
  "index_val k = foldl (\<lambda>n c. 10 * n + (of_char c - 48)) 0 k"

definition is_index :: "string \<Rightarrow> bool" where
  "is_index k = (k \<noteq> [] \<and> set k \<subseteq> set ''0123456789'' \<and> (k = ''0'' \<or> hd k \<noteq> CHR ''0'') \<and>
                 index_val k < 4294967295)"

definition inherited :: "string \<Rightarrow> bool" where
  "inherited k = (k \<in> set [''constructor'', ''__defineGetter__'', ''__defineSetter__'',
     ''hasOwnProperty'', ''__lookupGetter__'', ''__lookupSetter__'', ''isPrototypeOf'',
     ''propertyIsEnumerable'', ''toString'', ''valueOf'', ''__proto__'', ''toLocaleString''])"

text \<open>\<open>obj[k] = v\<close> for a key the object owns: the key keeps its place.\<close>
fun replace :: "string \<Rightarrow> 'a \<Rightarrow> (string \<times> 'a) list \<Rightarrow> (string \<times> 'a) list" where
  "replace k v [] = []"
| "replace k v ((k', v') # t) = (if k' = k then (k, v) # t else (k', v') # replace k v t)"

text \<open>\<open>obj[k] = v\<close> for a new integer-like key: it goes behind the smaller
  integer-like keys.\<close>
fun place :: "string \<Rightarrow> 'a \<Rightarrow> (string \<times> 'a) list \<Rightarrow> (string \<times> 'a) list" where
  "place k v [] = [(k, v)]"
| "place k v ((k', v') # t) =
     (if is_index k' \<and> index_val k' < index_val k then (k', v') # place k v t
      else (k, v) # (k', v') # t)"

definition assign :: "string \<Rightarrow> 'a \<Rightarrow> (string \<times> 'a) list \<Rightarrow> (string \<times> 'a) list" where
  "assign k v t =
     (if k \<in> fst ` set t then replace k v t
      else if is_index k then place k v t
      else t @ [(k, v)])"

text \<open>The loop of lines 67-76 for one file, on the dictionary \<open>tmpTree\<close>.

  At the last component, line 68 and line 72 together leave the content id under the
  key; for \<open>__proto__\<close> the assignment of line 72 sets the prototype and creates no key.

  At a component that is not the last: a key the dictionary owns is followed (line 74);
  when its value is a content id, that content id becomes the current object and the
  remaining assignments set properties on it. A key the dictionary does not own but
  inherits is truthy at line 68, so no dictionary is created and line 74 moves to the
  inherited object. In both cases the rest of the loop works on an object that is not a
  dictionary of the tree, and the tree stays as it is; what these assignments do to the
  other object is not part of the model. Only a key that is neither owned nor inherited
  gets a new dictionary (line 69).\<close>
fun insert_path :: "string list \<Rightarrow> cid \<Rightarrow> file_tree \<Rightarrow> file_tree" where
  "insert_path [] c t = t"
| "insert_path [k] c t =
     (if k \<notin> fst ` set t \<and> k = ''__proto__'' then t else assign k (Leaf c) t)"
| "insert_path (k # k' # ks) c t =
     (case map_of t k of
        Some (Dir sub) \<Rightarrow> assign k (Dir (insert_path (k' # ks) c sub)) t
      | Some (Leaf x) \<Rightarrow> t
      | None \<Rightarrow>
          if inherited k then t
          else assign k (Dir (insert_path (k' # ks) c [])) t)"

text \<open>Lines 62-64: one leading empty component is dropped.\<close>
fun strip_leading :: "string list \<Rightarrow> string list" where
  "strip_leading [] = []"
| "strip_leading (k # ks) = (if k = [] then ks else k # ks)"

definition add_file :: "(string \<Rightarrow> string list) \<Rightarrow> file_entry \<Rightarrow> file_tree \<Rightarrow> file_tree" where
  "add_file split f t =
     (let splitted = split (path f) in
      if length splitted = 1 then t
      else insert_path (strip_leading splitted) (cid f) t)"

definition createTree :: "(string \<Rightarrow> string list) \<Rightarrow> file_entry list \<Rightarrow> file_tree" where
  "createTree split files = fold (add_file split) files []"

subsection \<open>createSizeIndex (lines 86-94)\<close>

definition createSizeIndex :: "file_entry list \<Rightarrow> (cid \<rightharpoonup> nat)" where
  "createSizeIndex files = fold (\<lambda>f idx. idx(cid f \<mapsto> fsize f)) files Map.empty"

text \<open>The assignments of line 90, in order, for the trace.\<close>
definition seed_writes :: "file_entry list \<Rightarrow> event list" where
  "seed_writes files = map (\<lambda>f. IndexWrite (cid f) (fsize f)) files"

subsection \<open>traverse (lines 110-161)\<close>

text \<open>\<open>path\<close> is \<open>null\<close> or a string; \<open>null\<close> and the empty string are falsy.\<close>
fun truthy :: "string option \<Rightarrow> bool" where
  "truthy None = False"
| "truthy (Some p) = (p \<noteq> [])"

text \<open>Line 116: \<open>path ? `${path}/${key}` : key\<close>.\<close>
fun child_path :: "string option \<Rightarrow> string \<Rightarrow> string" where
  "child_path None key = key"
| "child_path (Some p) key = (if p = [] then key else p @ ''/'' @ key)"

definition emit :: "event list \<Rightarrow> state \<Rightarrow> state" where
  "emit evs st = st\<lparr>trace := trace st @ evs\<rparr>"

text \<open>\<open>traverse\<close> and the iteration of \<open>mapValues\<close> over the keys of one dictionary
  (lines 111-117), when the persist step calls back at once and every stored content
  id passes the test of \<open>isLeaf\<close>: each child has reported before the next one is
  started, and a failing child ends the iteration. \<open>mapValues\<close> returns the dictionary
  of resolved content ids.\<close>
fun traverse :: "store \<Rightarrow> file_tree \<Rightarrow> string option \<Rightarrow> state \<Rightarrow> (error + cid) \<times> state"
and mapValues :: "store \<Rightarrow> file_tree \<Rightarrow> string option \<Rightarrow> state
                   \<Rightarrow> (error + (string \<times> cid) list) \<times> state" where
  "traverse store t p st =
     (case mapValues store t p st of
        (Inl err, st1) \<Rightarrow> (Inl err, st1)
      | (Inr resolved, st1) \<Rightarrow>
          (let links = map (\<lambda>(key, c). (key, sizeIndex st1 c, c)) resolved;
               answer = store (length (persists (trace st1))) links
           in case answer of
                Inl m \<Rightarrow>
                  (Inl (StoreError m),
                   emit [Persist p links answer, Push (ErrorValue ''failed to store dirNode'')] st1)
              | Inr (c, n) \<Rightarrow>
                  (Inr c,
                   emit ([Persist p links answer, IndexWrite c n] @
                         (if truthy p then [Push (DirectoryRecord (the p) n c)] else []))
                     (st1\<lparr>sizeIndex := (sizeIndex st1)(c \<mapsto> n)\<rparr>))))"
| "mapValues store [] p st = (Inr [], st)"
| "mapValues store ((key, Leaf c) # rest) p st =
     (case mapValues store rest p st of
        (Inl err, st2) \<Rightarrow> (Inl err, st2)
      | (Inr resolved, st2) \<Rightarrow> (Inr ((key, c) # resolved), st2))"
| "mapValues store ((key, Dir sub) # rest) p st =
     (case traverse store sub (Some (child_path p key)) st of
        (Inl err, st1) \<Rightarrow> (Inl err, st1)
      | (Inr c, st1) \<Rightarrow>
          (case mapValues store rest p st1 of
             (Inl err, st2) \<Rightarrow> (Inl err, st2)
           | (Inr resolved, st2) \<Rightarrow> (Inr ((key, c) # resolved), st2)))"

subsection \<open>The exported function (lines 13-31)\<close>

text \<open>The result is what the callback receives and the trace of the run:
  \<open>Inr None\<close> is \<open>callback()\<close>, \<open>Inr (Some c)\<close> is \<open>callback(null, c)\<close>.\<close>
definition flushTree ::
  "(string \<Rightarrow> string list) \<Rightarrow> store \<Rightarrow> file_entry list \<Rightarrow> (error + cid option) \<times> event list" where
  "flushTree split store files =
     (let fileTree = createTree split files in
      if length fileTree > 1 then (Inl MoreThanOneRoot, [])
      else if length fileTree = 0 then (Inr None, [])
      else
        (case traverse store fileTree None
                \<lparr>sizeIndex = createSizeIndex files, trace = seed_writes files\<rparr> of
           (Inl err, st) \<Rightarrow> (Inl err, trace st)
         | (Inr c, st) \<Rightarrow> (Inr (Some c), trace st)))"

subsection \<open>Auxiliary notions for the proofs\<close>

text \<open>A stretch of the trace without a failed persist call and without an error value.\<close>
definition quiet :: "event list \<Rightarrow> bool" where
  "quiet evs = (\<forall>e\<in>set evs. \<not> is_failure e \<and> \<not> is_error_push e)"

text \<open>A stretch of the trace that ends with a failed persist call and the error value
  pushed for it, and is quiet before.\<close>
definition ends_failed :: "error \<Rightarrow> event list \<Rightarrow> bool" where
  "ends_failed e evs = (\<exists>pre pp ls m. evs = pre @ [Persist pp ls (Inl m), Push (ErrorValue ''failed to store dirNode'')]
      \<and> e = StoreError m \<and> quiet pre)"

text \<open>What reaches the output for one persist call: the error value when the call
  failed, the directory record when it succeeded under a truthy path.\<close>
fun announced :: "event \<Rightarrow> event list" where
  "announced (Persist p ls (Inl m)) = [Push (ErrorValue ''failed to store dirNode'')]"
| "announced (Persist p ls (Inr (c, n))) =
     (if truthy p then [Push (DirectoryRecord (the p) n c)] else [])"
| "announced e = []"

text \<open>The directory record of a successful persist call under a path.\<close>
fun record_of :: "event \<Rightarrow> event" where
  "record_of (Persist (Some p) ls (Inr (c, n))) = Push (DirectoryRecord p n c)"
| "record_of e = e"

subsection \<open>Sample collaborators and inputs\<close>

text \<open>A persist step that always succeeds and names the nodes \<open>d\<close>, \<open>dd\<close>, \<open>ddd\<close>, ...\<close>
definition store_ok :: store where
  "store_ok i links = Inr (replicate (Suc i) CHR ''d'', 100 + i)"

text \<open>A persist step whose call number \<open>k\<close> fails.\<close>
definition store_failing :: "nat \<Rightarrow> store" where
  "store_failing k i links = (if i = k then Inl ''disk full'' else store_ok i links)"

text \<open>A directory with two subdirectories.\<close>
definition two_subdirs :: "file_entry list" where
  "two_subdirs = [\<lparr>path = ''a/b/x.txt'', fsize = 1, cid = ''X''\<rparr>,
                  \<lparr>path = ''a/c/y.txt'', fsize = 2, cid = ''Y''\<rparr>]"

subsection \<open>isLeaf (lines 163-165)\<close>

text \<open>What \<open>isLeaf\<close> inspects of a JavaScript value: the result of \<open>typeof\<close> and whether
  \<open>Buffer.isBuffer\<close> holds for it.\<close>
record js_value =
  typeof :: string
  isBuffer :: bool

text \<open>Line 164: \<open>!(typeof value === 'object' && !Buffer.isBuffer(value))\<close>.\<close>
definition isLeaf :: "js_value \<Rightarrow> bool" where
  "isLeaf v = (\<not> (typeof v = ''object'' \<and> \<not> isBuffer v))"

subsection \<open>traverse with a persist step that calls back later\<close>

text \<open>The events of a run, in the order in which they happen: an assignment to the size
  index (lines 90 and 138), the call of the persist step for a directory (lines 134-136)
  with the path of line 116 and the links of lines 129-132, the moment the persist step
  calls back for a directory (line 144), a value pushed to \<open>source\<close> (lines 146 and 151),
  the call of the callback given to the exported function, and an exception that leaves
  the exported function. A directory is named by its keys from the innermost one to the
  top level one; the fileTree itself is \<open>[]\<close>.\<close>
datatype aevent =
    AWrite cid nat
  | Call "string list" "string option" "link list"
  | Return "string list" "string + (cid \<times> nat)"
  | APush sink_item
  | Callback "error + cid option"
  | Thrown

text \<open>The size index and the events so far.\<close>
record astate =
  aindex :: "cid \<rightharpoonup> nat"
  alog :: "aevent list"

text \<open>The argument \<open>path\<close> of \<open>traverse\<close> for a directory (line 116); \<open>null\<close> for the
  fileTree itself.\<close>
fun path_of :: "string list \<Rightarrow> string option" where
  "path_of [] = None"
| "path_of (k # d) = Some (child_path (path_of d) k)"

text \<open>The dictionary that the fileTree holds for a directory, if it has one.\<close>
fun dir_at :: "file_tree \<Rightarrow> string list \<Rightarrow> file_tree option" where
  "dir_at t [] = Some t"
| "dir_at t (k # d) =
     (case dir_at t d of
        None \<Rightarrow> None
      | Some sub \<Rightarrow> (case map_of sub k of Some (Dir s) \<Rightarrow> Some s | _ \<Rightarrow> None))"

text \<open>\<open>below d' d\<close>: the directory \<open>d'\<close> lies strictly inside the directory \<open>d\<close>.\<close>
definition below :: "string list \<Rightarrow> string list \<Rightarrow> bool" where
  "below d' d = (length d < length d' \<and> drop (length d' - length d) d' = d)"

text \<open>Tests on events.\<close>
fun is_call :: "aevent \<Rightarrow> bool" where
  "is_call (Call d p ls) = True"
| "is_call e = False"

fun is_return_of :: "string list \<Rightarrow> aevent \<Rightarrow> bool" where
  "is_return_of d (Return d' r) = (d' = d)"
| "is_return_of d e = False"

fun is_ok_return :: "string list \<Rightarrow> aevent \<Rightarrow> bool" where
  "is_ok_return d (Return d' (Inr r)) = (d' = d)"
| "is_ok_return d e = False"

fun failed_below :: "string list \<Rightarrow> aevent \<Rightarrow> bool" where
  "failed_below d (Return d' (Inl m)) = below d' d"
| "failed_below d e = False"

fun is_failed_return :: "aevent \<Rightarrow> bool" where
  "is_failed_return (Return d (Inl m)) = True"
| "is_failed_return e = False"



text \<open>Line 113: a leaf reports its own value as soon as it is visited.\<close>
fun leaf_result :: "string \<times> tree \<Rightarrow> (string \<times> cid) list" where
  "leaf_result (k, Leaf c) = [(k, c)]"
| "leaf_result (k, Dir s) = []"

text \<open>Line 158: a child directory of \<open>d\<close> reports the content id of its stored node
  when its persist step has called back.\<close>
fun child_result :: "string list \<Rightarrow> aevent \<Rightarrow> (string \<times> cid) list" where
  "child_result d (Return (k # d') (Inr (c, n))) = (if d' = d then [(k, c)] else [])"
| "child_result d e = []"

text \<open>The object that \<open>mapValues\<close> hands to the function of line 117: every key is
  assigned when its child reports, so the leaves come first, in the order of the
  dictionary, and the child directories follow in the order in which they finished;
  integer-like keys are listed first as in every plain object.\<close>
definition newObj :: "file_tree \<Rightarrow> string list \<Rightarrow> aevent list \<Rightarrow> (string \<times> cid) list" where
  "newObj children d log =
     fold (\<lambda>(k, c) obj. assign k c obj)
       (concat (map leaf_result children) @ concat (map (child_result d) log)) []"

text \<open>Whether a child has reported a result to \<open>mapValues\<close>: a value that
  \<open>isLeaf\<close> accepts reports at once (line 113), a child directory when its node is
  stored (line 158). A content id that \<open>isLeaf\<close> rejects never reports.\<close>
fun reported :: "(cid \<Rightarrow> js_value) \<Rightarrow> string list \<Rightarrow> aevent list \<Rightarrow> string \<times> tree \<Rightarrow> bool" where
  "reported kind d log (k, Leaf c) = isLeaf (kind c)"
| "reported kind d log (k, Dir s) = list_ex (is_ok_return (k # d)) log"

text \<open>Whether \<open>mapValues\<close> over the children of \<open>d\<close> has received an error: with
  \<open>done(err)\<close> of lines 119 and 147 that is the case as soon as the persist step has failed
  for a directory inside \<open>d\<close>. \<open>mapValues\<close> calls the function of line 117 once, with the
  first error, and ignores what the other children report afterwards.\<close>
definition aborted :: "string list \<Rightarrow> aevent list \<Rightarrow> bool" where
  "aborted d log = list_ex (failed_below d) log"

text \<open>\<open>mapValues\<close> calls the function of line 117 without an error when every child
  has reported.\<close>
definition ready :: "(cid \<Rightarrow> js_value) \<Rightarrow> file_tree \<Rightarrow> string list \<Rightarrow> aevent list \<Rightarrow> bool" where
  "ready kind children d log = (\<not> aborted d log \<and> list_all (reported kind d log) children)"

text \<open>Lines 127-136: the links are built from the result object and the size index as
  it is at this moment, and the persist step is called.\<close>
definition issue :: "file_tree \<Rightarrow> string list \<Rightarrow> astate \<Rightarrow> astate" where
  "issue children d st =
     st\<lparr>alog := alog st @
       [Call d (path_of d) (map (\<lambda>(k, c). (k, aindex st c, c)) (newObj children d (alog st)))]\<rparr>"

text \<open>The synchronous part of \<open>traverse\<close>: \<open>mapValues\<close> starts every child in the
  order of the keys. A directory whose children are all leaves calls the persist step
  before \<open>traverse\<close> returns. A stored content id that \<open>isLeaf\<close> rejects is traversed
  like a directory (line 116): \<open>mapValues\<close> runs over its fields, which are leaves, and
  line 130 applies \<open>new CID\<close> to a field of a content id, which the constructor rejects
  with an exception. The exception leaves \<open>traverse\<close> and the exported function, so
  nothing more is started; the calls in flight are not affected.\<close>
fun start_dir :: "(cid \<Rightarrow> js_value) \<Rightarrow> file_tree \<Rightarrow> string list \<Rightarrow> astate \<Rightarrow> astate"
and start_children :: "(cid \<Rightarrow> js_value) \<Rightarrow> file_tree \<Rightarrow> string list \<Rightarrow> astate \<Rightarrow> astate" where
  "start_dir kind children d st =
     (let st1 = start_children kind children d st
      in if ready kind children d (alog st1) then issue children d st1 else st1)"
| "start_children kind [] d st = st"
| "start_children kind ((k, Leaf c) # rest) d st =
     (if isLeaf (kind c) then start_children kind rest d st
      else st\<lparr>alog := alog st @ [Thrown]\<rparr>)"
| "start_children kind ((k, Dir sub) # rest) d st =
     (let st1 = start_dir kind sub (k # d) st
      in if Thrown \<in> set (alog st1) then st1 else start_children kind rest d st1)"

text \<open>The calls of the persist step that have not called back yet, each with its
  directory, its links and its number among the calls of the run.\<close>
fun flight :: "aevent list \<Rightarrow> nat \<times> aevent \<Rightarrow> (string list \<times> link list \<times> nat) list" where
  "flight log (n, Call d p ls) = (if list_ex (is_return_of d) log then [] else [(d, ls, n)])"
| "flight log (n, e) = []"

definition flying :: "aevent list \<Rightarrow> (string list \<times> link list \<times> nat) list" where
  "flying log = concat (map (flight log) (enumerate 0 (filter is_call log)))"

text \<open>\<open>done(err)\<close> of line 147 and then of line 119 in every enclosing directory whose
  \<open>mapValues\<close> has not received an error before; at the top it is the callback of the
  exported function.\<close>
fun report :: "string list \<Rightarrow> error \<Rightarrow> aevent list \<Rightarrow> aevent list" where
  "report [] e log = [Callback (Inl e)]"
| "report (k # parent) e log = (if aborted parent log then [] else report parent e log)"

text \<open>Lines 144-159 for one call of the persist step that calls back now, followed by
  what \<open>done\<close> sets off: after a failure the error travels upwards; after a success the
  enclosing directory calls the persist step in its turn if this was the last child it
  waited for, and at the top the callback receives the content id.\<close>
definition complete :: "(cid \<Rightarrow> js_value) \<Rightarrow> store \<Rightarrow> file_tree \<Rightarrow> string list \<times> link list \<times> nat \<Rightarrow> astate \<Rightarrow> astate" where
  "complete kind store t call st =
     (case call of (d, ls, n) \<Rightarrow>
        (case store n ls of
           Inl m \<Rightarrow>
             st\<lparr>alog := alog st @
               [Return d (Inl m), APush (ErrorValue ''failed to store dirNode'')] @
               report d (StoreError m) (alog st)\<rparr>
         | Inr (c, n') \<Rightarrow>
             (let st1 = st\<lparr>aindex := (aindex st)(c \<mapsto> n'),
                            alog := alog st @ [Return d (Inr (c, n')), AWrite c n'] @
                              (if truthy (path_of d)
                               then [APush (DirectoryRecord (the (path_of d)) n' c)] else [])\<rparr>
              in case d of
                   [] \<Rightarrow> st1\<lparr>alog := alog st1 @ [Callback (Inr (Some c))]\<rparr>
                 | k # parent \<Rightarrow>
                     (case dir_at t parent of
                        None \<Rightarrow> st1
                      | Some children \<Rightarrow>
                          if ready kind children parent (alog st1) then issue children parent st1
                          else st1))))"

text \<open>A run: each number of the schedule chooses which of the calls in flight calls
  back next. The run ends when the schedule ends or when no call is in flight.\<close>
fun run :: "(cid \<Rightarrow> js_value) \<Rightarrow> store \<Rightarrow> file_tree \<Rightarrow> nat list \<Rightarrow> astate \<Rightarrow> astate" where
  "run kind store t [] st = st"
| "run kind store t (i # sched) st =
     (case flying (alog st) of
        [] \<Rightarrow> st
      | f # fs \<Rightarrow>
          run kind store t sched (complete kind store t ((f # fs) ! (i mod length (f # fs))) st))"

text \<open>The exported function (lines 13-31) with this \<open>traverse\<close>; the result is the list
  of events.\<close>
definition flushTreeAsync ::
  "(string \<Rightarrow> string list) \<Rightarrow> (cid \<Rightarrow> js_value) \<Rightarrow> store \<Rightarrow> nat list \<Rightarrow> file_entry list
     \<Rightarrow> aevent list" where
  "flushTreeAsync split kind store sched files =
     (let fileTree = createTree split files in
      if length fileTree > 1 then [Callback (Inl MoreThanOneRoot)]
      else if length fileTree = 0 then [Callback (Inr None)]
      else alog (run kind store fileTree sched
                  (start_dir kind fileTree []
                     \<lparr>aindex = createSizeIndex files,
                      alog = map (\<lambda>f. AWrite (cid f) (fsize f)) files\<rparr>)))"

text \<open>Content ids of a kind that \<open>isLeaf\<close> accepts, and content id objects (instances
  of \<open>CID\<close>), which are objects and not Buffers.\<close>
definition leaf_values :: "cid \<Rightarrow> js_value" where
  "leaf_values c = \<lparr>typeof = ''object'', isBuffer = True\<rparr>"

definition cid_objects :: "cid \<Rightarrow> js_value" where
  "cid_objects c = \<lparr>typeof = ''object'', isBuffer = False\<rparr>"

text \<open>Two files in one directory.\<close>
definition scenario_B :: "file_entry list" where
  "scenario_B = [\<lparr>path = ''foo/bar.txt'', fsize = 10, cid = ''X''\<rparr>,
                 \<lparr>path = ''foo/baz.txt'', fsize = 20, cid = ''Y''\<rparr>]"

text \<open>Two files under two top level names, one of which is a name that every plain
  object inherits.\<close>
definition hidden_root :: "file_entry list" where
  "hidden_root = [\<lparr>path = ''constructor/a.txt'', fsize = 1, cid = ''X''\<rparr>,
                  \<lparr>path = ''b/c.txt'', fsize = 2, cid = ''Y''\<rparr>]"

text \<open>A persist step whose first two calls fail.\<close>
definition store_failing2 :: store where
  "store_failing2 i links = (if i < 2 then Inl ''disk full'' else store_ok i links)"

text \<open>No dictionary of the tree has a key twice.\<close>
fun wf_tree :: "file_tree \<Rightarrow> bool" where
  "wf_tree [] = True"
| "wf_tree ((k, Leaf c) # rest) = (k \<notin> fst ` set rest \<and> wf_tree rest)"
| "wf_tree ((k, Dir sub) # rest) = (k \<notin> fst ` set rest \<and> wf_tree sub \<and> wf_tree rest)"

fun is_awrite :: "aevent \<Rightarrow> bool" where
  "is_awrite (AWrite c n) = True"
| "is_awrite e = False"

text \<open>The directories for which the persist step has called back, in that order.\<close>
fun return_dir :: "aevent \<Rightarrow> string list list" where
  "return_dir (Return d r) = [d]"
| "return_dir e = []"

definition returned :: "aevent list \<Rightarrow> string list list" where
  "returned log = concat (map return_dir log)"

text \<open>The lists of events that the steps of \<open>traverse\<close> can produce, whatever the order
  in which the calls of the persist step call back: a directory calls the persist step
  only when every child directory has reported a stored node (line 117 after line 158),
  the persist step calls back only for a call that was made and only once, a failure
  pushes the error value and may be handed to the callback (lines 146-147), a success
  assigns the size, pushes the record of a directory with a path and, for the fileTree
  itself, hands the content id to the callback (lines 138 and 150-158); an exception
  can be raised at any moment.\<close>
inductive reach :: "file_tree \<Rightarrow> aevent list \<Rightarrow> bool" for t where
  seed: "\<forall>e\<in>set log. is_awrite e \<Longrightarrow> reach t log"
| call: "reach t log \<Longrightarrow> dir_at t d \<noteq> None \<Longrightarrow>
         \<forall>k. dir_at t (k # d) \<noteq> None \<longrightarrow> (\<exists>c n. Return (k # d) (Inr (c, n)) \<in> set log) \<Longrightarrow>
         reach t (log @ [Call d p ls])"
| failure: "reach t log \<Longrightarrow> Call d p ls \<in> set log \<Longrightarrow> d \<notin> set (returned log) \<Longrightarrow>
         cb = [] \<or> cb = [Callback (Inl (StoreError m))] \<Longrightarrow>
         list_ex is_failed_return log \<or> cb \<noteq> [] \<Longrightarrow>
         reach t (log @ [Return d (Inl m), APush (ErrorValue ''failed to store dirNode'')] @ cb)"
| success: "reach t log \<Longrightarrow> Call d p ls \<in> set log \<Longrightarrow> d \<notin> set (returned log) \<Longrightarrow>
         reach t (log @ [Return d (Inr (c, n)), AWrite c n] @
                   (if truthy (path_of d) then [APush (DirectoryRecord (the (path_of d)) n c)]
                    else []) @
                   (if d = [] then [Callback (Inr (Some c))] else []))"
| throw: "reach t log \<Longrightarrow> reach t (log @ [Thrown])"

text \<open>\<open>hist ok log\<close>: every event of the log satisfies \<open>ok\<close> with respect to the events
  before it.\<close>
fun hist :: "(aevent list \<Rightarrow> aevent \<Rightarrow> bool) \<Rightarrow> aevent list \<Rightarrow> bool" where
  "hist ok [] = True"
| "hist ok (e # es) = (ok [] e \<and> hist (\<lambda>h. ok (e # h)) es)"

text \<open>An event is admissible after the events \<open>h\<close> when a call of the persist step
  for a directory comes after the stored nodes of all its child directories and when
  the persist step calls back after it was called.\<close>
fun admissible :: "file_tree \<Rightarrow> aevent list \<Rightarrow> aevent \<Rightarrow> bool" where
  "admissible t h (Call d p ls) =
     (\<forall>k. dir_at t (k # d) \<noteq> None \<longrightarrow> (\<exists>c n. Return (k # d) (Inr (c, n)) \<in> set h))"
| "admissible t h (Return d r) = (\<exists>p ls. Call d p ls \<in> set h)"
| "admissible t h e = True"


section \<open>Properties of createTree\<close>

lemma add_file_single: "length (split (path f)) = 1 \<Longrightarrow> add_file split f t = t"
  by (simp add: add_file_def)

lemma fold_add_file_single:
  "\<forall>f\<in>set fs. length (split (path f)) = 1 \<Longrightarrow> fold (add_file split) fs t = t"
  by (induction fs arbitrary: t) (simp_all add: add_file_single)

section \<open>Properties of traverse\<close>

lemma persists_append [simp]: "persists (xs @ ys) = persists xs @ persists ys"
  by (simp add: persists_def)

lemma trace_emit [simp]: "trace (emit evs st) = trace st @ evs"
  by (simp add: emit_def)

lemma sizeIndex_emit [simp]: "sizeIndex (emit evs st) = sizeIndex st"
  by (simp add: emit_def)

lemma invariant_rule:
  "\<forall>tr p ls m. I tr \<longrightarrow> store (length (persists tr)) ls = Inl m \<longrightarrow>
      I (tr @ [Persist p ls (Inl m), Push (ErrorValue ''failed to store dirNode'')]) \<Longrightarrow>
   \<forall>tr p ls c n. I tr \<longrightarrow> store (length (persists tr)) ls = Inr (c, n) \<longrightarrow>
      I (tr @ [Persist p ls (Inr (c, n)), IndexWrite c n] @
          (if truthy p then [Push (DirectoryRecord (the p) n c)] else [])) \<Longrightarrow>
   I (trace st) \<Longrightarrow> I (trace (snd (traverse store t p st)))"
  "\<forall>tr p ls m. I tr \<longrightarrow> store (length (persists tr)) ls = Inl m \<longrightarrow>
      I (tr @ [Persist p ls (Inl m), Push (ErrorValue ''failed to store dirNode'')]) \<Longrightarrow>
   \<forall>tr p ls c n. I tr \<longrightarrow> store (length (persists tr)) ls = Inr (c, n) \<longrightarrow>
      I (tr @ [Persist p ls (Inr (c, n)), IndexWrite c n] @
          (if truthy p then [Push (DirectoryRecord (the p) n c)] else [])) \<Longrightarrow>
   I (trace st) \<Longrightarrow> I (trace (snd (mapValues store t p st)))"
proof (induction store t p st and store t p st rule: traverse_mapValues.induct)
  case (1 store t p st)
  obtain r st1 where mv: "mapValues store t p st = (r, st1)" by (cases "mapValues store t p st")
  with 1 have I1: "I (trace st1)" by simp
  show ?case
  proof (cases r)
    case (Inl e)
    with mv I1 show ?thesis by simp
  next
    case (Inr resolved)
    let ?links = "map (\<lambda>(key, c). (key, sizeIndex st1 c, c)) resolved"
    show ?thesis
    proof (cases "store (length (persists (trace st1))) ?links")
      case (Inl m)
      with mv \<open>r = Inr resolved\<close> I1 1(2) show ?thesis by (simp add: Let_def)
    next
      case (Inr cn)
      obtain c n where cn: "cn = (c, n)" by (cases cn)
      with mv \<open>r = Inr resolved\<close> Inr I1 1(3) show ?thesis
        by (simp add: Let_def)
    qed
  qed
next
  case (2 store p st)
  then show ?case by simp
next
  case (3 store key c rest p st)
  obtain r st2 where mv: "mapValues store rest p st = (r, st2)"
    by (cases "mapValues store rest p st")
  with 3 have "I (trace st2)" by simp
  with mv show ?case by (cases r) simp_all
next
  case (4 store key sub rest p st)
  obtain r st1 where tr: "traverse store sub (Some (child_path p key)) st = (r, st1)"
    by (cases "traverse store sub (Some (child_path p key)) st")
  with 4 have I1: "I (trace st1)" by simp
  show ?case
  proof (cases r)
    case (Inl e)
    with tr I1 show ?thesis by simp
  next
    case (Inr c)
    obtain r2 st2 where mv: "mapValues store rest p st1 = (r2, st2)"
      by (cases "mapValues store rest p st1")
    with 4 tr I1 Inr have "I (trace st2)" by simp
    with tr Inr mv show ?thesis by (cases r2) simp_all
  qed
qed

lemma quiet_Nil [simp]: "quiet []"
  by (simp add: quiet_def)

lemma quiet_append [simp]: "quiet (xs @ ys) = (quiet xs \<and> quiet ys)"
  by (auto simp: quiet_def)



lemma pushed_append [simp]: "pushed (xs @ ys) = pushed xs @ pushed ys"
  by (simp add: pushed_def)

lemma writes_append [simp]: "writes (xs @ ys) = writes xs @ writes ys"
  by (simp add: writes_def)

lemma persists_seed_writes [simp]: "persists (seed_writes files) = []"
  by (simp add: persists_def seed_writes_def)

lemma pushed_seed_writes [simp]: "pushed (seed_writes files) = []"
  by (simp add: pushed_def seed_writes_def)

lemma writes_seed_writes [simp]: "map written_key (writes (seed_writes files)) = map cid files"
  by (induction files) (simp_all add: writes_def seed_writes_def)

lemma quiet_seed_writes [simp]: "quiet (seed_writes files)"
  by (auto simp: quiet_def seed_writes_def)


lemma quiet_counts: "quiet tr \<Longrightarrow> filter is_error_push tr = [] \<and> filter is_failure tr = []"
  by (auto simp: quiet_def filter_empty_conv)


lemma ends_failed_counts:
  "ends_failed e tr \<Longrightarrow> length (filter is_error_push tr) = 1 \<and> length (filter is_failure tr) = 1"
  unfolding ends_failed_def by (auto simp: quiet_counts)

lemma pushed_announced:
  assumes "pushed (trace st) = concat (map announced (persists (trace st)))"
  shows "pushed (trace (snd (traverse store t p st))) =
         concat (map announced (persists (trace (snd (traverse store t p st)))))"
  by (rule invariant_rule(1) [where I = "\<lambda>tr. pushed tr = concat (map announced (persists tr))"])
     (use assms in \<open>simp_all add: pushed_def persists_def\<close>)

lemma own_persist_last:
  assumes "traverse store t p st = (Inr c, st')"
  shows "\<exists>pre ls n. persists (trace st') = pre @ [Persist p ls (Inr (c, n))]"
proof -
  obtain r st1 where mv: "mapValues store t p st = (r, st1)" by (cases "mapValues store t p st")
  show ?thesis
  proof (cases r)
    case (Inl e)
    with mv assms show ?thesis by simp
  next
    case (Inr resolved)
    let ?links = "map (\<lambda>(key, c). (key, sizeIndex st1 c, c)) resolved"
    show ?thesis
    proof (cases "store (length (persists (trace st1))) ?links")
      case (Inl m)
      with mv \<open>r = Inr resolved\<close> assms show ?thesis by (simp add: Let_def)
    next
      case (Inr cn)
      obtain c' n where cn: "cn = (c', n)" by (cases cn)
      with mv \<open>r = Inr resolved\<close> Inr assms
      have "c' = c" and "trace st' = trace st1 @ [Persist p ?links (Inr (c, n)), IndexWrite c n] @
          (if truthy p then [Push (DirectoryRecord (the p) n c)] else [])"
        by (auto simp: Let_def)
      then have "persists (trace st') = persists (trace st1) @ [Persist p ?links (Inr (c, n))]"
        by (simp add: persists_def)
      then show ?thesis by blast
    qed
  qed
qed


section \<open>Properties of flushTree\<close>



section \<open>Sample runs\<close>

lemmas run_simps = flushTree_def createTree_def add_file_def createSizeIndex_def seed_writes_def
  store_failing_def store_ok_def emit_def persists_def Let_def
  toPathComponents_def assign_def is_index_def inherited_def index_val_def


lemma run_two_subdirs:
  "flushTree toPathComponents store_ok two_subdirs =
  (Inr (Some ''dddd''),
   [IndexWrite ''X'' 1, IndexWrite ''Y'' 2,
    Persist (Some ''a/b'') [(''x.txt'', Some 1, ''X'')] (Inr (''d'', 100)),
    IndexWrite ''d'' 100, Push (DirectoryRecord ''a/b'' 100 ''d''),
    Persist (Some ''a/c'') [(''y.txt'', Some 2, ''Y'')] (Inr (''dd'', 101)),
    IndexWrite ''dd'' 101, Push (DirectoryRecord ''a/c'' 101 ''dd''),
    Persist (Some ''a'') [(''b'', Some 100, ''d''), (''c'', Some 101, ''dd'')] (Inr (''ddd'', 102)),
    IndexWrite ''ddd'' 102, Push (DirectoryRecord ''a'' 102 ''ddd''),
    Persist None [(''a'', Some 102, ''ddd'')] (Inr (''dddd'', 103)),
    IndexWrite ''dddd'' 103])"
  by (simp add: two_subdirs_def run_simps)

section \<open>Properties of the dictionaries, of the second model of traverse and of its runs\<close>

lemma map_fst_replace: "map fst (replace k v t) = map fst t"
  by (induction t) auto


lemma set_map_fst_place: "set (map fst (place k v t)) = insert k (set (map fst t))"
  by (induction t) (force simp: image_iff)+

lemma keys_place: "fst ` set (place k v t) = insert k (fst ` set t)"
  using set_map_fst_place [of k v t] by simp






lemma strip_leading_id: "[] \<notin> set ks \<Longrightarrow> strip_leading ks = ks"
  by (cases ks) auto

lemma toPathComponents_nonempty: "[] \<notin> set (toPathComponents p)"
  by (simp add: toPathComponents_def)

lemma integer_keys_first:
  "createTree toPathComponents
     [\<lparr>path = ''a/b/x'', fsize = 1, cid = ''X''\<rparr>, \<lparr>path = ''a/1/y'', fsize = 2, cid = ''Y''\<rparr>] =
   [(''a'', Dir [(''1'', Dir [(''y'', Leaf ''Y'')]), (''b'', Dir [(''x'', Leaf ''X'')])])]"
  by (simp add: run_simps)

lemmas async_simps = flushTreeAsync_def createTree_def add_file_def createSizeIndex_def
  store_ok_def Let_def toPathComponents_def assign_def is_index_def inherited_def index_val_def
  complete_def issue_def ready_def aborted_def newObj_def flying_def below_def
  store_failing2_def enumerate_eq_zip
  leaf_values_def cid_objects_def isLeaf_def


lemma async_run_two_subdirs:
  "flushTreeAsync toPathComponents leaf_values store_ok [1, 0, 0, 0] two_subdirs =
   [AWrite ''X'' 1, AWrite ''Y'' 2,
    Call [''b'', ''a''] (Some ''a/b'') [(''x.txt'', Some 1, ''X'')],
    Call [''c'', ''a''] (Some ''a/c'') [(''y.txt'', Some 2, ''Y'')],
    Return [''c'', ''a''] (Inr (''dd'', 101)), AWrite ''dd'' 101,
    APush (DirectoryRecord ''a/c'' 101 ''dd''),
    Return [''b'', ''a''] (Inr (''d'', 100)), AWrite ''d'' 100,
    APush (DirectoryRecord ''a/b'' 100 ''d''),
    Call [''a''] (Some ''a'') [(''c'', Some 101, ''dd''), (''b'', Some 100, ''d'')],
    Return [''a''] (Inr (''ddd'', 102)), AWrite ''ddd'' 102,
    APush (DirectoryRecord ''a'' 102 ''ddd''),
    Call [] None [(''a'', Some 102, ''ddd'')],
    Return [] (Inr (''dddd'', 103)), AWrite ''dddd'' 103,
    Callback (Inr (Some ''dddd''))]"
  by (simp add: two_subdirs_def async_simps)

lemma async_run_scenario_B_objects:
  "flushTreeAsync toPathComponents cid_objects store_ok [] scenario_B
     = [AWrite ''X'' 10, AWrite ''Y'' 20, Thrown]"
  by (simp add: scenario_B_def async_simps)

lemma wf_tree_iff:
  "wf_tree t \<longleftrightarrow> distinct (map fst t) \<and> (\<forall>k sub. (k, Dir sub) \<in> set t \<longrightarrow> wf_tree sub)"
  by (induction t rule: wf_tree.induct) auto

lemma set_replace: "set (replace k v t) \<subseteq> insert (k, v) (set t)"
  by (induction t) (auto split: if_splits)

lemma set_place: "set (place k v t) = insert (k, v) (set t)"
  by (induction t) (auto split: if_splits)

lemma distinct_place: "k \<notin> fst ` set t \<Longrightarrow> distinct (map fst t) \<Longrightarrow> distinct (map fst (place k v t))"
proof (induction t)
  case Nil
  then show ?case by simp
next
  case (Cons a t)
  obtain k' v' where a: "a = (k', v')" by (cases a)
  with Cons.prems have "k' \<notin> fst ` set (place k v t)" by (auto simp: keys_place)
  with Cons a show ?case by (auto simp: keys_place)
qed

lemma distinct_assign: "distinct (map fst t) \<Longrightarrow> distinct (map fst (assign k v t))"
  by (auto simp: assign_def map_fst_replace distinct_place)

lemma set_assign: "set (assign k v t) \<subseteq> insert (k, v) (set t)"
  using set_replace [of k v t] by (auto simp: assign_def set_place)

lemma wf_distinct: "wf_tree t \<Longrightarrow> distinct (map fst t)"
  using wf_tree_iff [of t] by blast

lemma wf_sub: "wf_tree t \<Longrightarrow> (k, Dir sub) \<in> set t \<Longrightarrow> wf_tree sub"
  using wf_tree_iff [of t] by blast

lemma wf_intro:
  "distinct (map fst t) \<Longrightarrow> (\<And>k sub. (k, Dir sub) \<in> set t \<Longrightarrow> wf_tree sub) \<Longrightarrow> wf_tree t"
  using wf_tree_iff [of t] by blast

lemma wf_assign:
  assumes "wf_tree t" and "\<forall>sub. v = Dir sub \<longrightarrow> wf_tree sub"
  shows "wf_tree (assign k v t)"
proof (rule wf_intro)
  show "distinct (map fst (assign k v t))"
    using assms(1) by (simp add: wf_distinct distinct_assign)
  fix k' sub
  assume "(k', Dir sub) \<in> set (assign k v t)"
  with set_assign [of k v t] have "(k', Dir sub) = (k, v) \<or> (k', Dir sub) \<in> set t" by auto
  then show "wf_tree sub"
  proof
    assume "(k', Dir sub) = (k, v)"
    with assms(2) show ?thesis by simp
  next
    assume "(k', Dir sub) \<in> set t"
    with assms(1) show ?thesis by (rule wf_sub)
  qed
qed

lemma wf_map_of: "wf_tree t \<Longrightarrow> map_of t k = Some (Dir sub) \<Longrightarrow> wf_tree sub"
  by (auto dest: map_of_SomeD wf_sub)

lemma wf_insert_path: "wf_tree t \<Longrightarrow> wf_tree (insert_path ks c t)"
proof (induction ks c t rule: insert_path.induct)
  case (1 c t)
  then show ?case by simp
next
  case (2 k c t)
  then show ?case by (simp add: wf_assign)
next
  case (3 k k' ks c t)
  show ?case
  proof (cases "map_of t k")
    case None
    with 3 show ?thesis by (simp add: wf_assign)
  next
    case (Some v)
    show ?thesis
    proof (cases v)
      case (Leaf x)
      with Some 3 show ?thesis by simp
    next
      case (Dir sub)
      with Some 3(3) have "wf_tree sub" by (auto dest: wf_map_of)
      with Some Dir 3 show ?thesis by (simp add: wf_assign)
    qed
  qed
qed

lemma wf_fold_add_file: "wf_tree t \<Longrightarrow> wf_tree (fold (add_file split) fs t)"
  by (induction fs arbitrary: t) (simp_all add: add_file_def Let_def wf_insert_path)

lemma wf_createTree: "wf_tree (createTree split files)"
  by (simp add: createTree_def wf_fold_add_file)

lemma ok_return_shape: "is_ok_return d e \<Longrightarrow> \<exists>c n. e = Return d (Inr (c, n))"
  by (cases "(d, e)" rule: is_ok_return.cases) auto

lemma ready_children_returned:
  assumes "ready kind children d log" and "dir_at t d = Some children" and "dir_at t (k # d) \<noteq> None"
  shows "\<exists>c n. Return (k # d) (Inr (c, n)) \<in> set log"
proof -
  from assms(2,3) obtain s where "map_of children k = Some (Dir s)"
    by (auto split: option.splits tree.splits)
  then have "(k, Dir s) \<in> set children" by (rule map_of_SomeD)
  with assms(1) have "reported kind d log (k, Dir s)" unfolding ready_def list_all_iff by blast
  then have "list_ex (is_ok_return (k # d)) log" by simp
  then obtain e where e: "e \<in> set log" "is_ok_return (k # d) e" by (auto simp: list_ex_iff)
  from ok_return_shape [OF e(2)] obtain c n where "e = Return (k # d) (Inr (c, n))" by blast
  with e(1) show ?thesis by blast
qed

lemma reach_issue:
  assumes "reach t (alog st)" and "dir_at t d = Some children" and "ready kind children d (alog st)"
  shows "reach t (alog (issue children d st))"
proof -
  have "\<forall>k. dir_at t (k # d) \<noteq> None \<longrightarrow> (\<exists>c n. Return (k # d) (Inr (c, n)) \<in> set (alog st))"
    using ready_children_returned [OF assms(3,2)] by blast
  with assms(1,2) show ?thesis unfolding issue_def by (simp add: reach.call)
qed

lemma reach_start:
  "reach t (alog st) \<Longrightarrow> wf_tree children \<Longrightarrow> dir_at t d = Some children \<Longrightarrow>
     reach t (alog (start_dir kind children d st))"
  "\<And>full. reach t (alog st) \<Longrightarrow> wf_tree full \<Longrightarrow> dir_at t d = Some full \<Longrightarrow>
     set rest \<subseteq> set full \<Longrightarrow> reach t (alog (start_children kind rest d st))"
proof (induction kind children d st and kind rest d st rule: start_dir_start_children.induct)
  case (1 kind children d st)
  have "reach t (alog (start_children kind children d st))"
    using 1(1) [OF 1(2) 1(3) 1(4)] by simp
  then show ?case
    using reach_issue [OF _ 1(4), of "start_children kind children d st" kind]
    by (simp add: Let_def)
next
  case (2 kind d st)
  then show ?case by simp
next
  case (3 kind k c rest d st)
  show ?case
  proof (cases "isLeaf (kind c)")
    case True
    from 3(1) [OF True 3(2) 3(3) 3(4)] 3(5) True show ?thesis by simp
  next
    case False
    from 3(2) have "reach t (alog st @ [Thrown])" by (rule reach.throw)
    with False show ?thesis by simp
  qed
next
  case (4 kind k sub rest d st)
  from 4(6) have mem: "(k, Dir sub) \<in> set full" by simp
  with 4(4) have lookup: "map_of full k = Some (Dir sub)"
    by (simp add: wf_distinct)
  from 4(4) mem have "wf_tree sub" by (rule wf_sub)
  moreover from lookup 4(5) have "dir_at t (k # d) = Some sub" by simp
  ultimately have r: "reach t (alog (start_dir kind sub (k # d) st))"
    using 4(1) [OF 4(3)] by simp
  show ?case
  proof (cases "Thrown \<in> set (alog (start_dir kind sub (k # d) st))")
    case True
    with r show ?thesis by (simp add: Let_def)
  next
    case False
    from 4(2) [OF refl False r 4(4) 4(5)] 4(6) False show ?thesis by (simp add: Let_def)
  qed
qed

lemma flying_called:
  assumes "(d, ls, n) \<in> set (flying log)"
  shows "\<exists>p. Call d p ls \<in> set log"
proof -
  from assms obtain i e where ie: "(i, e) \<in> set (enumerate 0 (filter is_call log))"
    and fl: "(d, ls, n) \<in> set (flight log (i, e))"
    unfolding flying_def by auto
  from ie have "i < length (filter is_call log)" "e = filter is_call log ! i"
    by (auto simp: in_set_enumerate_eq)
  then have "e \<in> set (filter is_call log)" using nth_mem by blast
  moreover from fl obtain p where "e = Call d p ls"
    by (cases "(log, (i, e))" rule: flight.cases) (auto split: if_splits)
  ultimately show ?thesis by auto
qed

lemma returned_iff: "d \<in> set (returned log) \<longleftrightarrow> list_ex (is_return_of d) log"
proof (induction log)
  case Nil
  show ?case by (simp add: returned_def)
next
  case (Cons e log)
  then show ?case by (cases e) (auto simp: returned_def)
qed

lemma flying_not_returned:
  assumes "(d, ls, n) \<in> set (flying log)"
  shows "d \<notin> set (returned log)"
proof -
  from assms obtain i e where fl: "(d, ls, n) \<in> set (flight log (i, e))"
    unfolding flying_def by auto
  then have "\<not> list_ex (is_return_of d) log"
    by (cases "(log, (i, e))" rule: flight.cases) (auto split: if_splits)
  then show ?thesis by (simp add: returned_iff)
qed

lemma report_cases: "report d e log = [] \<or> report d e log = [Callback (Inl e)]"
  by (induction d) auto

lemma failed_below_failed: "failed_below d e \<Longrightarrow> is_failed_return e"
  by (cases "(d, e)" rule: failed_below.cases) auto

lemma report_first: "\<not> list_ex is_failed_return log \<Longrightarrow> report d e log = [Callback (Inl e)]"
proof (induction d)
  case Nil
  then show ?case by simp
next
  case (Cons k parent)
  then have "\<not> aborted parent log"
    by (auto simp: aborted_def list_ex_iff dest: failed_below_failed)
  with Cons show ?case by simp
qed

lemma reach_complete:
  assumes "reach t (alog st)" and "call \<in> set (flying (alog st))"
  shows "reach t (alog (complete kind store t call st))"
proof -
  obtain d ls n where call: "call = (d, ls, n)" by (cases call)
  with assms(2) obtain p where called: "Call d p ls \<in> set (alog st)"
    by (auto dest: flying_called)
  from call assms(2) have fresh: "d \<notin> set (returned (alog st))"
    by (auto dest: flying_not_returned)
  show ?thesis
  proof (cases "store n ls")
    case (Inl m)
    let ?cb = "report d (StoreError m) (alog st)"
    have "?cb = [] \<or> ?cb = [Callback (Inl (StoreError m))]" by (rule report_cases)
    moreover have "list_ex is_failed_return (alog st) \<or> ?cb \<noteq> []"
      using report_first [of "alog st" d "StoreError m"] by auto
    ultimately have "reach t (alog st @
        [Return d (Inl m), APush (ErrorValue ''failed to store dirNode'')] @ ?cb)"
      using assms(1) called fresh by (rule reach.failure [rotated 3])
    with call Inl show ?thesis by (simp add: complete_def)
  next
    case (Inr cn)
    obtain c n' where cn: "cn = (c, n')" by (cases cn)
    let ?st1 = "st\<lparr>aindex := (aindex st)(c \<mapsto> n'),
        alog := alog st @ [Return d (Inr (c, n')), AWrite c n'] @
          (if truthy (path_of d) then [APush (DirectoryRecord (the (path_of d)) n' c)] else [])\<rparr>"
    show ?thesis
    proof (cases d)
      case Nil
      have r2: "reach t (alog ?st1 @ [Callback (Inr (Some c))])"
        using reach.success [OF assms(1) called fresh, of c n'] unfolding Nil by simp
      have "alog (complete kind store t call st) = alog ?st1 @ [Callback (Inr (Some c))]"
        using call Inr cn Nil by (simp add: complete_def)
      with r2 show ?thesis by simp
    next
      case (Cons k parent)
      have r1: "reach t (alog ?st1)"
        using reach.success [OF assms(1) called fresh, of c n'] unfolding Cons by simp
      show ?thesis
      proof (cases "dir_at t parent")
        case None
        have "complete kind store t call st = ?st1"
          using call Inr cn None unfolding Cons by (simp add: complete_def)
        with r1 show ?thesis by simp
      next
        case (Some children)
        show ?thesis
        proof (cases "ready kind children parent (alog ?st1)")
          case True
          have "complete kind store t call st = issue children parent ?st1"
            using call Inr cn Some True unfolding Cons by (simp add: complete_def Let_def)
          with reach_issue [OF r1 Some True] show ?thesis by simp
        next
          case False
          have "complete kind store t call st = ?st1"
            using call Inr cn Some False unfolding Cons by (simp add: complete_def Let_def)
          with r1 show ?thesis by simp
        qed
      qed
    qed
  qed
qed

lemma reach_run: "reach t (alog st) \<Longrightarrow> reach t (alog (run kind store t sched st))"
proof (induction sched arbitrary: st)
  case Nil
  then show ?case by simp
next
  case (Cons i sched)
  show ?case
  proof (cases "flying (alog st)")
    case Nil
    with Cons.prems show ?thesis by simp
  next
    case (Cons f fs)
    have "(f # fs) ! (i mod length (f # fs)) \<in> set (flying (alog st))"
      unfolding Cons [symmetric] using Cons by (intro nth_mem) simp
    from reach_complete [OF Cons.prems this]
    have "reach t (alog (complete kind store t ((f # fs) ! (i mod length (f # fs))) st))" .
    from Cons.IH [OF this] Cons show ?thesis by simp
  qed
qed

lemma flushTreeAsync_cases:
  obtains (many) "flushTreeAsync split kind store sched files = [Callback (Inl MoreThanOneRoot)]"
  | (none) "flushTreeAsync split kind store sched files = [Callback (Inr None)]"
  | (run) "reach (createTree split files) (flushTreeAsync split kind store sched files)"
proof -
  let ?t = "createTree split files"
  let ?st0 = "\<lparr>aindex = createSizeIndex files, alog = map (\<lambda>f. AWrite (cid f) (fsize f)) files\<rparr>"
  consider "1 < length ?t" | "?t = []" | "length ?t = 1"
    by (cases ?t; cases "tl ?t") auto
  then show thesis
  proof cases
    case 1
    then show ?thesis using many by (simp add: flushTreeAsync_def Let_def)
  next
    case 2
    then show ?thesis using none by (simp add: flushTreeAsync_def Let_def)
  next
    case 3
    have "reach ?t (alog ?st0)" by (rule reach.seed) auto
    then have "reach ?t (alog (start_dir kind ?t [] ?st0))"
      using wf_createTree by (rule reach_start(1)) simp
    then have "reach ?t (alog (run kind store ?t sched (start_dir kind ?t [] ?st0)))"
      by (rule reach_run)
    with 3 show ?thesis using run by (simp add: flushTreeAsync_def Let_def)
  qed
qed

lemma hist_append: "hist ok (xs @ ys) = (hist ok xs \<and> hist (\<lambda>h. ok (xs @ h)) ys)"
  by (induction xs arbitrary: ok) auto

lemma hist_nth: "hist ok log \<Longrightarrow> i < length log \<Longrightarrow> ok (take i log) (log ! i)"
proof (induction log arbitrary: ok i)
  case Nil
  then show ?case by simp
next
  case (Cons e es)
  show ?case
  proof (cases i)
    case 0
    with Cons.prems show ?thesis by simp
  next
    case (Suc j)
    with Cons.prems have "hist (\<lambda>h. ok (e # h)) es" "j < length es" by simp_all
    from Cons.IH [OF this] Suc show ?thesis by simp
  qed
qed

lemma hist_all: "(\<And>h e. e \<in> set log \<Longrightarrow> ok h e) \<Longrightarrow> hist ok log"
  by (induction log arbitrary: ok) auto

lemma admissible_awrite: "is_awrite e \<Longrightarrow> admissible t h e"
  by (cases e) auto

lemma reach_admissible: "reach t log \<Longrightarrow> hist (admissible t) log"
proof (induction rule: reach.induct)
  case (seed log)
  then show ?case by (intro hist_all) (auto intro: admissible_awrite)
next
  case (call log d p ls)
  then show ?case by (simp add: hist_append)
next
  case (failure log d p ls cb m)
  then show ?case by (auto simp: hist_append)
next
  case (success log d p ls c n)
  then show ?case by (auto simp: hist_append)
next
  case (throw log)
  then show ?case by (simp add: hist_append)
qed

lemma in_take_nth: "x \<in> set (take i log) \<Longrightarrow> \<exists>j<i. j < length log \<and> log ! j = x"
  by (auto simp: in_set_conv_nth)

lemma child_before:
  assumes "hist (admissible t) log" and "i < length log" and "log ! i = Call d p ls"
    and "dir_at t (k # d) \<noteq> None"
  shows "\<exists>j<i. \<exists>c n. log ! j = Return (k # d) (Inr (c, n))"
proof -
  from hist_nth [OF assms(1,2)] assms(3,4)
  obtain c n where "Return (k # d) (Inr (c, n)) \<in> set (take i log)" by auto
  from in_take_nth [OF this] show ?thesis by metis
qed

lemma call_before:
  assumes "hist (admissible t) log" and "j < length log" and "log ! j = Return d r"
  shows "\<exists>h<j. \<exists>p ls. log ! h = Call d p ls"
proof -
  from hist_nth [OF assms(1,2)] assms(3)
  obtain p ls where "Call d p ls \<in> set (take j log)" by auto
  from in_take_nth [OF this] show ?thesis by metis
qed

lemma descendant_before:
  assumes "hist (admissible t) log" and "i < length log" and "log ! i = Call d p ls"
  shows "xs \<noteq> [] \<Longrightarrow> dir_at t (xs @ d) \<noteq> None \<Longrightarrow>
         \<exists>j<i. (\<exists>c n. log ! j = Return (xs @ d) (Inr (c, n))) \<and>
               (\<exists>h<j. \<exists>p' ls'. log ! h = Call (xs @ d) p' ls')"
proof (induction xs)
  case Nil
  then show ?case by simp
next
  case (Cons x xs)
  show ?case
  proof (cases "xs = []")
    case True
    with Cons.prems have "dir_at t (x # d) \<noteq> None" by simp
    from child_before [OF assms this] obtain j c n where
      j: "j < i" "log ! j = Return (x # d) (Inr (c, n))" by blast
    with assms(2) have "j < length log" by simp
    from call_before [OF assms(1) this j(2)] j True show ?thesis by auto
  next
    case False
    from Cons.prems(2) have "dir_at t (xs @ d) \<noteq> None" by (auto split: option.splits)
    from Cons.IH [OF False this] obtain j h p' ls' where
      j: "j < i" and h: "h < j" "log ! h = Call (xs @ d) p' ls'" by blast
    from j h(1) assms(2) have hl: "h < length log" by simp
    from Cons.prems(2) have "dir_at t (x # xs @ d) \<noteq> None" by simp
    from child_before [OF assms(1) hl h(2) this] obtain j' c n where
      j': "j' < h" "log ! j' = Return (x # xs @ d) (Inr (c, n))" by blast
    with hl have "j' < length log" by simp
    from call_before [OF assms(1) this j'(2)] obtain h' p'' ls'' where
      "h' < j'" "log ! h' = Call (x # xs @ d) p'' ls''" by blast
    moreover from j' h(1) j have "j' < i" by simp
    ultimately show ?thesis using j'(2) by auto
  qed
qed

lemma below_iff: "below d' d \<longleftrightarrow> (\<exists>xs. xs \<noteq> [] \<and> d' = xs @ d)"
proof
  assume b: "below d' d"
  then have "d' = take (length d' - length d) d' @ d"
    unfolding below_def by (metis append_take_drop_id)
  moreover from b have "take (length d' - length d) d' \<noteq> []" by (auto simp: below_def)
  ultimately show "\<exists>xs. xs \<noteq> [] \<and> d' = xs @ d" by blast
next
  assume "\<exists>xs. xs \<noteq> [] \<and> d' = xs @ d"
  then show "below d' d" by (auto simp: below_def)
qed





















section \<open>The claims\<close>

text \<open>C1, where the code departs from the claim: line 90 calls \<open>toBaseEncodedString\<close> on
  each content id, so \<open>X\<close> and \<open>Y\<close> are content id objects. For such a value (an object
  that is not a Buffer) \<open>isLeaf\<close> is false, so line 116 descends into \<open>X\<close> as if it were a
  directory and line 130 raises an exception: whatever the persist step would do, the
  run consists of the two assignments of line 90 and the exception, without a call of
  the persist step and without a call of the callback.\<close>
theorem cid_objects_are_traversed:
  "isLeaf (cid_objects c) = False
   \<and> flushTreeAsync toPathComponents cid_objects store sched scenario_B
       = [AWrite ''X'' 10, AWrite ''Y'' 20, Thrown]"
  by (cases sched) (simp_all add: scenario_B_def async_simps)

text \<open>C2: in every run, whatever the order in which the calls of the persist step call
  back, when the persist step is called for a directory, then for every directory of
  the built tree inside it the persist step has been called before and has called back
  with a stored node before.\<close>
theorem persist_after_descendants:
  assumes "i < length (flushTreeAsync split kind store sched files)"
    and "flushTreeAsync split kind store sched files ! i = Call d p ls"
    and "below d' d"
    and "dir_at (createTree split files) d' \<noteq> None"
  shows "\<exists>j<i. (\<exists>c n. flushTreeAsync split kind store sched files ! j = Return d' (Inr (c, n))) \<and>
               (\<exists>h<j. \<exists>p' ls'. flushTreeAsync split kind store sched files ! h = Call d' p' ls')"
proof (cases rule: flushTreeAsync_cases [where split = split and kind = kind and store = store
      and sched = sched and files = files])
  case many
  with assms(1,2) show ?thesis by simp
next
  case none
  with assms(1,2) show ?thesis by simp
next
  case run
  then have h: "hist (admissible (createTree split files)) (flushTreeAsync split kind store sched files)"
    by (rule reach_admissible)
  from assms(3) obtain xs where xs: "xs \<noteq> []" "d' = xs @ d" by (auto simp: below_iff)
  from descendant_before [OF h assms(1,2) xs(1)] assms(4) xs(2) show ?thesis by simp
qed

theorem persist_after_descendants_witness:
  "flushTreeAsync toPathComponents leaf_values store_ok [1, 0, 0, 0] two_subdirs ! 10
     = Call [''a''] (Some ''a'') [(''c'', Some 101, ''dd''), (''b'', Some 100, ''d'')]
   \<and> below [''b'', ''a''] [''a'']
   \<and> dir_at (createTree toPathComponents two_subdirs) [''b'', ''a''] \<noteq> None
   \<and> (\<exists>j<10. (\<exists>c n. flushTreeAsync toPathComponents leaf_values store_ok [1, 0, 0, 0] two_subdirs ! j
                       = Return [''b'', ''a''] (Inr (c, n)))
        \<and> (\<exists>h<j. \<exists>p' ls'. flushTreeAsync toPathComponents leaf_values store_ok [1, 0, 0, 0] two_subdirs ! h
                       = Call [''b'', ''a''] p' ls'))"
proof -
  have l: "10 < length (flushTreeAsync toPathComponents leaf_values store_ok [1, 0, 0, 0] two_subdirs)"
    unfolding async_run_two_subdirs by simp
  have c: "flushTreeAsync toPathComponents leaf_values store_ok [1, 0, 0, 0] two_subdirs ! 10
     = Call [''a''] (Some ''a'') [(''c'', Some 101, ''dd''), (''b'', Some 100, ''d'')]"
    unfolding async_run_two_subdirs by simp
  have b: "below [''b'', ''a''] [''a'']" by (simp add: below_def)
  have d: "dir_at (createTree toPathComponents two_subdirs) [''b'', ''a''] \<noteq> None"
    by (simp add: two_subdirs_def createTree_def add_file_def toPathComponents_def assign_def
        is_index_def inherited_def index_val_def)
  from persist_after_descendants [OF l c b d] c b d show ?thesis by blast
qed

text \<open>C3, where the code departs from the claim: the paths \<open>constructor/a.txt\<close> and
  \<open>b/c.txt\<close> have two distinct top level components, but line 68 reads the inherited
  property \<open>constructor\<close> of the empty object, which is truthy, so line 69 does not
  create a key for it. The fileTree has the single key \<open>b\<close>, the test of line 17 does not
  fire, and the traversal starts: with content ids that pass the leaf test it stores two
  nodes, pushes a record and calls back with a root content id; with content id objects
  it raises the exception of line 130. In neither case is the error of line 18
  reported.\<close>
theorem inherited_name_hides_root:
  "createTree toPathComponents hidden_root = [(''b'', Dir [(''c.txt'', Leaf ''Y'')])]
   \<and> flushTree toPathComponents store_ok hidden_root =
     (Inr (Some ''dd''),
      [IndexWrite ''X'' 1, IndexWrite ''Y'' 2,
       Persist (Some ''b'') [(''c.txt'', Some 2, ''Y'')] (Inr (''d'', 100)),
       IndexWrite ''d'' 100, Push (DirectoryRecord ''b'' 100 ''d''),
       Persist None [(''b'', Some 100, ''d'')] (Inr (''dd'', 101)),
       IndexWrite ''dd'' 101])
   \<and> flushTreeAsync toPathComponents cid_objects store sched hidden_root
       = [AWrite ''X'' 1, AWrite ''Y'' 2, Thrown]"
proof -
  have "flushTreeAsync toPathComponents cid_objects store sched hidden_root
       = [AWrite ''X'' 1, AWrite ''Y'' 2, Thrown]"
    by (cases sched) (simp_all add: hidden_root_def async_simps)
  then show ?thesis by (simp add: hidden_root_def run_simps)
qed





text \<open>C6: when the splitter returns no empty component, as the helper does, an entry
  whose path has exactly one component after a leading empty component is dropped
  leaves the tree under construction as it is, and the tree built from a list of entries
  is the tree built from the list without that entry.\<close>
theorem single_component_entry_excluded:
  assumes "[] \<notin> set (split (path f))"
    and "length (strip_leading (split (path f))) = 1"
  shows "add_file split f t = t \<and>
         createTree split (fs @ f # gs) = createTree split (fs @ gs)"
proof -
  from assms have "length (split (path f)) = 1" by (simp add: strip_leading_id)
  then have "add_file split f t = t" for t by (rule add_file_single)
  then show ?thesis by (simp add: createTree_def)
qed

theorem single_component_entry_excluded_witness:
  "createTree toPathComponents
     [\<lparr>path = ''d/x.txt'', fsize = 1, cid = ''X''\<rparr>, \<lparr>path = ''/a.txt'', fsize = 5, cid = ''Y''\<rparr>] =
   createTree toPathComponents [\<lparr>path = ''d/x.txt'', fsize = 1, cid = ''X''\<rparr>]"
proof -
  have "[] \<notin> set (toPathComponents (path \<lparr>path = ''/a.txt'', fsize = 5, cid = ''Y''\<rparr>))"
    by (rule toPathComponents_nonempty)
  moreover have "length (strip_leading (toPathComponents
      (path \<lparr>path = ''/a.txt'', fsize = 5, cid = ''Y''\<rparr>))) = 1"
    by (simp add: toPathComponents_def)
  ultimately show ?thesis
    using single_component_entry_excluded
      [of toPathComponents "\<lparr>path = ''/a.txt'', fsize = 5, cid = ''Y''\<rparr>" "[]"
          "[\<lparr>path = ''d/x.txt'', fsize = 1, cid = ''X''\<rparr>]" "[]"]
    by simp
qed

text \<open>C7: when every path splits into exactly one component, \<open>flushTree\<close> calls back
  without error and without a root, and its trace is empty: no persist call, no record.\<close>
theorem single_component_paths_no_root:
  assumes "\<forall>f\<in>set files. length (split (path f)) = 1"
  shows "flushTree split store files = (Inr None, [])"
  using assms by (simp add: flushTree_def createTree_def fold_add_file_single)

theorem single_component_paths_no_root_witness:
  "flushTree toPathComponents store_ok [\<lparr>path = ''a.txt'', fsize = 5, cid = ''X''\<rparr>] = (Inr None, [])"
  by (rule single_component_paths_no_root) (simp add: toPathComponents_def)




text \<open>C9, as the code has it: when the children of a directory have resolved and the
  content id of one of them is absent from the size index, the lookup of line 131 gives
  \<open>undefined\<close> and nothing fails: the link is built with the undefined size, the persist
  step is called with it, and \<open>traverse\<close> returns what the persist step returns.\<close>
theorem absent_size_is_undefined:
  assumes "mapValues store t p st = (Inr resolved, st1)"
    and "(k, c) \<in> set resolved" and "sizeIndex st1 c = None"
  shows "\<exists>ls. (k, None, c) \<in> set ls \<and>
           Persist p ls (store (length (persists (trace st1))) ls)
             \<in> set (trace (snd (traverse store t p st))) \<and>
           fst (traverse store t p st) =
             (case store (length (persists (trace st1))) ls of
                Inl m \<Rightarrow> Inl (StoreError m) | Inr (c', n) \<Rightarrow> Inr c')"
proof -
  let ?ls = "map (\<lambda>(key, c). (key, sizeIndex st1 c, c)) resolved"
  from assms(2,3) have "(k, None, c) \<in> set ?ls" by force
  moreover have "Persist p ?ls (store (length (persists (trace st1))) ?ls)
      \<in> set (trace (snd (traverse store t p st)))"
    by (simp add: assms(1) Let_def split: sum.splits prod.splits)
  moreover have "fst (traverse store t p st) =
      (case store (length (persists (trace st1))) ?ls of
         Inl m \<Rightarrow> Inl (StoreError m) | Inr (c', n) \<Rightarrow> Inr c')"
    by (simp add: assms(1) Let_def split: sum.splits prod.splits)
  ultimately show ?thesis by blast
qed

theorem absent_size_is_undefined_witness:
  "\<exists>ls. (''f'', None, ''X'') \<in> set ls \<and>
     Persist None ls (store_ok 0 ls)
       \<in> set (trace (snd (traverse store_ok [(''f'', Leaf ''X'')] None
                \<lparr>sizeIndex = map_of [], trace = []\<rparr>))) \<and>
     fst (traverse store_ok [(''f'', Leaf ''X'')] None \<lparr>sizeIndex = map_of [], trace = []\<rparr>) =
       Inr ''d''"
proof -
  have "mapValues store_ok [(''f'', Leaf ''X'')] None \<lparr>sizeIndex = map_of [], trace = []\<rparr> =
      (Inr [(''f'', ''X'')], \<lparr>sizeIndex = map_of [], trace = []\<rparr>)"
    by simp
  from absent_size_is_undefined [OF this, of "''f''" "''X''"] show ?thesis
    by (simp add: store_ok_def persists_def)
qed

text \<open>A lookup error does not exist: on an empty size index the directory with the one
  child \<open>X\<close> is persisted with a link of undefined size and its id is returned.\<close>
theorem absent_size_no_lookup_error:
  "fst (traverse store_ok [(''f'', Leaf ''X'')] None \<lparr>sizeIndex = map_of [], trace = []\<rparr>) = Inr ''d'' \<and>
   trace (snd (traverse store_ok [(''f'', Leaf ''X'')] None \<lparr>sizeIndex = map_of [], trace = []\<rparr>)) =
     [Persist None [(''f'', None, ''X'')] (Inr (''d'', 100)), IndexWrite ''d'' 100]"
  by (simp add: run_simps)



end
